theory Spec2Isabelle
  imports Main "HOL-Library.AList"
begin

section \<open>JavaScript values\<close>

text \<open>
  The values that travel through the dispatcher and the validator: errors handed to
  continuations, results of handlers, parameter values, messages. Only what the code
  inspects is kept: truthiness (\<^verbatim>\<open>if (err)\<close>, \<^verbatim>\<open>hookErr || err\<close>,
  \<^verbatim>\<open>msg || ...\<close>), whether a property can be read at all (\<^verbatim>\<open>e.message\<close>) and
  the text of \<^verbatim>\<open>toString()\<close>. An object is identified by the text its
  \<^verbatim>\<open>toString()\<close> yields, and so is a number: zero (of either sign) prints as
  \<^verbatim>\<open>0\<close> and not-a-number as \<^verbatim>\<open>NaN\<close>, and these are the falsy numbers. Arrays
  are not parameter values here.
\<close>

datatype jsval =
    JUndefined
  | JNull
  | JBool bool
  | JNum string
  | JStr string
  | JObj string

fun truthy :: "jsval \<Rightarrow> bool" where
  "truthy JUndefined = False"
| "truthy JNull = False"
| "truthy (JBool b) = b"
| "truthy (JNum t) = (t \<noteq> ''0'' \<and> t \<noteq> ''NaN'')"
| "truthy (JStr s) = (s \<noteq> [])"
| "truthy (JObj d) = True"

text \<open>\<^verbatim>\<open>a || b\<close>\<close>

definition js_or :: "jsval \<Rightarrow> jsval \<Rightarrow> jsval" where
  "js_or a b = (if truthy a then a else b)"

text \<open>
  Reading a property of \<^verbatim>\<open>undefined\<close> or \<^verbatim>\<open>null\<close> raises a TypeError; of any
  other value it yields something.
\<close>

definition nullish :: "jsval \<Rightarrow> bool" where
  "nullish v = (v = JUndefined \<or> v = JNull)"

section \<open>Objects used as dictionaries\<close>

text \<open>
  A plain object is an association list in key order: assigning to a key that exists
  keeps its place, a new key goes to the end (\<^const>\<open>AList.update\<close>). Keys are the
  object's own keys. The registry of builders is read by collection name, which may be
  any string, and its lookup takes the inherited names into account (see \<open>use\<close>).
  Method names hold a dot and pattern names a phase prefix, which no inherited name has;
  parameter and validator names are taken not to be inherited names or array indices.
\<close>

type_synonym 'v obj = "(string \<times> 'v) list"

definition keys :: "'v obj \<Rightarrow> string list" where
  "keys ob = map fst ob"

section \<open>Hooks, methods and the invocation context\<close>

text \<open>
  The context carries a \<^verbatim>\<open>result\<close> slot and an \<^verbatim>\<open>error\<close> slot; whatever else a
  transport puts there is the extension of the record.
\<close>

record ctx =
  ctx_result :: jsval
  ctx_error :: jsval

text \<open>
  What a hook \<^verbatim>\<open>cur.call(method, ctx, execStack, method)\<close> does, besides changing the
  context: it calls its continuation with a value (\<^verbatim>\<open>next()\<close> is
  \<open>Continue JUndefined\<close>), or returns a then-able that later resolves, rejects or stays
  pending, or throws, or returns without doing any of these (as the hooks
  \<^verbatim>\<open>function(ctx, next) { return; }\<close> of the test suite do). A hook does one of
  these, once; a hook that calls its continuation twice, or calls it and also returns a
  then-able, is outside this model, as are a method handler and a final callback that throw.
  The name of a hook is what an observer records when the hook is entered.
\<close>

datatype settle = Resolved | Rejected jsval | Pending

datatype outcome =
    Continue jsval
  | Thenable settle
  | Throw jsval
  | Silent

record hook =
  hname :: string
  hbody :: "ctx \<Rightarrow> ctx \<times> outcome"

text \<open>
  The method object (an \<^verbatim>\<open>ApiMethod\<close>): \<^verbatim>\<open>fullName()\<close> and \<^verbatim>\<open>invoke(ctx, callback)\<close>, whose callback
  receives \<^verbatim>\<open>(err, result)\<close> or is never called.
\<close>

datatype handler_outcome = HCallback jsval jsval | HNoCallback

record apiMethod =
  fullName :: string
  invoke :: "ctx \<Rightarrow> ctx \<times> handler_outcome"

text \<open>
  What an observer sees of one invocation, in order: a hook of a phase entered, the method
  invoked, the final callback called with a value.
\<close>

datatype event =
    HookRan string string
  | Invoked string
  | CallBack jsval

record state =
  st_ctx :: ctx
  st_trace :: "event list"

type_synonym cont = "jsval \<Rightarrow> state \<Rightarrow> state"

section \<open>The registry\<close>

record apiBuilder =
  bname :: string
  bevents :: "hook list obj"
  bmethods :: "apiMethod obj"

record poplar =
  apiBuilders :: "apiBuilder obj"
  methods :: "apiMethod obj"
  events :: "hook list obj"
  listenerTree :: "string list obj obj"

text \<open>\<^verbatim>\<open>new Poplar(options)\<close>\<close>

definition create :: poplar where
  "create = \<lparr>apiBuilders = [], methods = [], events = [], listenerTree = []\<rparr>"

text \<open>The emitter's \<^verbatim>\<open>on(type, fn)\<close> and \<^verbatim>\<open>listeners(type)\<close>.\<close>

definition on :: "string \<Rightarrow> hook \<Rightarrow> poplar \<Rightarrow> poplar" where
  "on type fn p =
     p\<lparr>events := (case map_of (events p) type of
                     None \<Rightarrow> events p @ [(type, [fn])]
                   | Some fns \<Rightarrow> AList.update type (fns @ [fn]) (events p))\<rparr>"

definition listeners :: "poplar \<Rightarrow> string \<Rightarrow> hook list" where
  "listeners p type = (case map_of (events p) type of None \<Rightarrow> [] | Some fns \<Rightarrow> fns)"

text \<open>
  \<^verbatim>\<open>searchListeners\<close>: every event name that the glob matcher accepts for
  \<^verbatim>\<open>type.methodName\<close>, in the order of \<^verbatim>\<open>Object.keys(this._events)\<close>. The matcher is
  the \<^verbatim>\<open>minimatch\<close> package, a parameter \<open>mm candidate pattern\<close> here.
\<close>

definition searchListeners :: "(string \<Rightarrow> string \<Rightarrow> bool) \<Rightarrow> poplar \<Rightarrow> string \<Rightarrow> string \<Rightarrow> string list" where
  "searchListeners mm p methodName type =
     (let allListenerNames = keys (events p);
          fullType = type @ ''.'' @ methodName
      in filter (\<lambda>name. mm fullType name) allListenerNames)"

text \<open>
  \<^verbatim>\<open>searchListenerTree\<close>: \<^verbatim>\<open>listeners[type]\<close> of a known method (\<open>None\<close> is
  \<^verbatim>\<open>undefined\<close>, for a type the entry does not have), the empty list otherwise.
\<close>

definition searchListenerTree :: "poplar \<Rightarrow> string \<Rightarrow> string \<Rightarrow> string list option" where
  "searchListenerTree p methodName type =
     (case map_of (listenerTree p) methodName of
        Some ls \<Rightarrow> map_of ls type
      | None \<Rightarrow> Some [])"

definition phases :: "string list" where
  "phases = [''before'', ''after'', ''afterError'']"

text \<open>\<^verbatim>\<open>analyzeListenerTree\<close>: a new tree built from all methods, then swapped in.\<close>

definition analyzeStep :: "(string \<Rightarrow> string \<Rightarrow> bool) \<Rightarrow> poplar \<Rightarrow> string list obj obj \<Rightarrow> string \<Rightarrow> string list obj obj" where
  "analyzeStep mm p tree name =
     (let entry = (case map_of tree name of None \<Rightarrow> [] | Some e \<Rightarrow> e)
      in AList.update name
           (foldl (\<lambda>e type. AList.update type (searchListeners mm p name type) e) entry phases)
           tree)"

definition analyzeListenerTree :: "(string \<Rightarrow> string \<Rightarrow> bool) \<Rightarrow> poplar \<Rightarrow> poplar" where
  "analyzeListenerTree mm p = p\<lparr>listenerTree := foldl (analyzeStep mm p) [] (keys (methods p))\<rparr>"

text \<open>\<^verbatim>\<open>before\<close>, \<^verbatim>\<open>after\<close>, \<^verbatim>\<open>afterError\<close>: register, then rebuild the tree.\<close>

definition before :: "(string \<Rightarrow> string \<Rightarrow> bool) \<Rightarrow> string \<Rightarrow> hook \<Rightarrow> poplar \<Rightarrow> poplar" where
  "before mm methodMatch fn p = analyzeListenerTree mm (on (''before.'' @ methodMatch) fn p)"

definition after :: "(string \<Rightarrow> string \<Rightarrow> bool) \<Rightarrow> string \<Rightarrow> hook \<Rightarrow> poplar \<Rightarrow> poplar" where
  "after mm methodMatch fn p = analyzeListenerTree mm (on (''after.'' @ methodMatch) fn p)"

definition afterError :: "(string \<Rightarrow> string \<Rightarrow> bool) \<Rightarrow> string \<Rightarrow> hook \<Rightarrow> poplar \<Rightarrow> poplar" where
  "afterError mm methodMatch fn p = analyzeListenerTree mm (on (''afterError.'' @ methodMatch) fn p)"

text \<open>
  \<^verbatim>\<open>use\<close>, for an \<^verbatim>\<open>ApiBuilder\<close> instance (given a name instead, the source first
  constructs one). The failed \<^verbatim>\<open>assert\<close> is the error value. The test
  \<^verbatim>\<open>!this._apiBuilders[name]\<close> reads a plain \<^verbatim>\<open>{}\<close>: besides the builders stored
  there, it finds what every plain object inherits, all of it truthy.
\<close>

definition inheritedNames :: "string list" where
  "inheritedNames =
     [''constructor'', ''toString'', ''toLocaleString'', ''valueOf'', ''hasOwnProperty'',
      ''isPrototypeOf'', ''propertyIsEnumerable'', ''__proto__'', ''__defineGetter__'',
      ''__defineSetter__'', ''__lookupGetter__'', ''__lookupSetter__'']"

definition hasBuilder :: "poplar \<Rightarrow> string \<Rightarrow> bool" where
  "hasBuilder p name = (name \<in> set inheritedNames \<or> name \<in> set (keys (apiBuilders p)))"

datatype error = AssertionError string | TypeError

definition mergeListeners :: "apiBuilder \<Rightarrow> poplar \<Rightarrow> poplar" where
  "mergeListeners emitter p =
     foldl (\<lambda>q (type, fns). foldl (\<lambda>r fn. on type fn r) q fns) p (bevents emitter)"

definition installMethod :: "string \<Rightarrow> poplar \<Rightarrow> string \<times> apiMethod \<Rightarrow> poplar" where
  "installMethod name q =
     (\<lambda>(methodName, fn). q\<lparr>methods := AList.update (name @ ''.'' @ methodName) fn (methods q)\<rparr>)"

definition mergeMethods :: "string \<Rightarrow> apiBuilder \<Rightarrow> poplar \<Rightarrow> poplar" where
  "mergeMethods name builder p = foldl (installMethod name) p (bmethods builder)"

definition use :: "(string \<Rightarrow> string \<Rightarrow> bool) \<Rightarrow> apiBuilder \<Rightarrow> poplar \<Rightarrow> error + poplar" where
  "use mm apiBuilder p =
     (let name = bname apiBuilder
      in if \<not> hasBuilder p name
         then Inr (analyzeListenerTree mm
                     (mergeMethods name apiBuilder
                        (mergeListeners apiBuilder
                           (p\<lparr>apiBuilders := AList.update name apiBuilder (apiBuilders p)\<rparr>))))
         else Inl (AssertionError (''Can't use the same ApiBuilder: '' @ name @ '' more than once!'')))"

text \<open>
  A tree entry of a method is up to date when it lists, for each phase, what the live scan
  finds for that method.
\<close>

definition goodEntry :: "(string \<Rightarrow> string \<Rightarrow> bool) \<Rightarrow> poplar \<Rightarrow> string list obj obj \<Rightarrow> string \<Rightarrow> bool" where
  "goodEntry mm p tree M =
     (\<exists>e. map_of tree M = Some e \<and>
          (\<forall>type\<in>set phases. map_of e type = Some (searchListeners mm p M type)))"

section \<open>Executing hooks\<close>

text \<open>
  \<^verbatim>\<open>execStack(err)\<close> over the remaining stack, with the caller's \<^verbatim>\<open>next\<close>. The
  then-able branch reports to \<^verbatim>\<open>next\<close>: \<^verbatim>\<open>result.then(function() { next(); }, next)\<close>.
\<close>

fun execStack :: "string \<Rightarrow> hook list \<Rightarrow> cont \<Rightarrow> jsval \<Rightarrow> state \<Rightarrow> state" where
  "execStack when [] next err s =
     (if truthy err then next err s else next JUndefined s)"
| "execStack when (cur # stack) next err s =
     (if truthy err then next err s
      else
        (case hbody cur (st_ctx s) of
           (c, out) \<Rightarrow>
             (let s' = s\<lparr>st_ctx := c, st_trace := st_trace s @ [HookRan when (hname cur)]\<rparr>
              in case out of
                   Continue v \<Rightarrow> execStack when stack next v s'
                 | Thenable Resolved \<Rightarrow> next JUndefined s'
                 | Thenable (Rejected r) \<Rightarrow> next r s'
                 | Thenable Pending \<Rightarrow> s'
                 | Throw e \<Rightarrow> next e s'
                 | Silent \<Rightarrow> s')))"

text \<open>
  The first half of \<^verbatim>\<open>execHooks\<close>: the names from the tree, from the live scan
  when \<^verbatim>\<open>_.isEmpty\<close> holds of them (\<^verbatim>\<open>undefined\<close> or no name), and the
  listeners of each name in turn, concatenated.
\<close>

definition hookStack :: "(string \<Rightarrow> string \<Rightarrow> bool) \<Rightarrow> poplar \<Rightarrow> string \<Rightarrow> string \<Rightarrow> hook list" where
  "hookStack mm p when methodName =
     (let listenerNames =
            (case searchListenerTree p methodName when of
               None \<Rightarrow> searchListeners mm p methodName when
             | Some names \<Rightarrow> if names = [] then searchListeners mm p methodName when else names)
      in concat (map (listeners p) listenerNames))"

definition execHooks :: "(string \<Rightarrow> string \<Rightarrow> bool) \<Rightarrow> poplar \<Rightarrow> string \<Rightarrow> apiMethod \<Rightarrow> cont \<Rightarrow> state \<Rightarrow> state" where
  "execHooks mm p when method next s =
     execStack when (hookStack mm p when (fullName method)) next JUndefined s"

section \<open>Invoking a method in a context\<close>

definition triggerErrorAndCallBack ::
  "(string \<Rightarrow> string \<Rightarrow> bool) \<Rightarrow> poplar \<Rightarrow> apiMethod \<Rightarrow> cont \<Rightarrow> jsval \<Rightarrow> state \<Rightarrow> state" where
  "triggerErrorAndCallBack mm p method cb err s =
     execHooks mm p ''afterError'' method (\<lambda>hookErr. cb (js_or hookErr err))
       (s\<lparr>st_ctx := (st_ctx s)\<lparr>ctx_error := err\<rparr>\<rparr>)"

definition invokeMethodInContext ::
  "(string \<Rightarrow> string \<Rightarrow> bool) \<Rightarrow> poplar \<Rightarrow> apiMethod \<Rightarrow> cont \<Rightarrow> state \<Rightarrow> state" where
  "invokeMethodInContext mm p method cb s =
     execHooks mm p ''before'' method
       (\<lambda>err s1.
          if truthy err then triggerErrorAndCallBack mm p method cb err s1
          else
            (case invoke method (st_ctx s1) of
               (c, HNoCallback) \<Rightarrow>
                 s1\<lparr>st_ctx := c, st_trace := st_trace s1 @ [Invoked (fullName method)]\<rparr>
             | (c, HCallback err result) \<Rightarrow>
                 (let s2 = s1\<lparr>st_ctx := c\<lparr>ctx_result := result\<rparr>,
                              st_trace := st_trace s1 @ [Invoked (fullName method)]\<rparr>
                  in if truthy err then cb err s2
                     else execHooks mm p ''after'' method
                            (\<lambda>err s3.
                               if truthy err then triggerErrorAndCallBack mm p method cb err s3
                               else cb JUndefined s3)
                            s2)))
       s"

text \<open>The caller's callback, as an observer sees it: it is recorded with its argument.\<close>

definition report :: cont where
  "report v s = s\<lparr>st_trace := st_trace s @ [CallBack v]\<rparr>"

section \<open>Outcomes of a hook chain\<close>

text \<open>
  The same walk over the stack, told from outside: the state in which the chain ends,
  and the value it hands to \<^verbatim>\<open>next\<close>, if it ever calls it.
\<close>

fun stackOutcome :: "string \<Rightarrow> hook list \<Rightarrow> jsval \<Rightarrow> state \<Rightarrow> state \<times> jsval option" where
  "stackOutcome when [] err s =
     (if truthy err then (s, Some err) else (s, Some JUndefined))"
| "stackOutcome when (cur # stack) err s =
     (if truthy err then (s, Some err)
      else
        (case hbody cur (st_ctx s) of
           (c, out) \<Rightarrow>
             (let s' = s\<lparr>st_ctx := c, st_trace := st_trace s @ [HookRan when (hname cur)]\<rparr>
              in case out of
                   Continue v \<Rightarrow> stackOutcome when stack v s'
                 | Thenable Resolved \<Rightarrow> (s', Some JUndefined)
                 | Thenable (Rejected r) \<Rightarrow> (s', Some r)
                 | Thenable Pending \<Rightarrow> (s', None)
                 | Throw e \<Rightarrow> (s', Some e)
                 | Silent \<Rightarrow> (s', None))))"

definition hooksOutcome ::
  "(string \<Rightarrow> string \<Rightarrow> bool) \<Rightarrow> poplar \<Rightarrow> string \<Rightarrow> apiMethod \<Rightarrow> state \<Rightarrow> state \<times> jsval option" where
  "hooksOutcome mm p when method s =
     stackOutcome when (hookStack mm p when (fullName method)) JUndefined s"

text \<open>
  A hook signals completion when it calls its continuation, returns a then-able that
  settles, or throws.
\<close>

fun signalling :: "outcome \<Rightarrow> bool" where
  "signalling (Continue v) = True"
| "signalling (Thenable Resolved) = True"
| "signalling (Thenable (Rejected r)) = True"
| "signalling (Thenable Pending) = False"
| "signalling (Throw e) = True"
| "signalling Silent = False"

text \<open>
  Every hook of a list calls its continuation without an error, each on the context the
  one before left: the context after the last, or \<open>None\<close>.
\<close>

fun continueAll :: "hook list \<Rightarrow> ctx \<Rightarrow> ctx option" where
  "continueAll [] c = Some c"
| "continueAll (h # hs) c =
     (case hbody h c of
        (c', Continue v) \<Rightarrow> if truthy v then None else continueAll hs c'
      | (c', _) \<Rightarrow> None)"

definition ran :: "string \<Rightarrow> hook list \<Rightarrow> event list" where
  "ran when hs = map (\<lambda>h. HookRan when (hname h)) hs"

fun isCallBack :: "event \<Rightarrow> bool" where
  "isCallBack (CallBack v) = True"
| "isCallBack _ = False"

text \<open>
  The state after a successful before chain and a handler that called back with
  \<^verbatim>\<open>(err, result)\<close>, as \<^verbatim>\<open>invokeMethodInContext\<close> leaves it at its error check.
\<close>

definition invoked :: "apiMethod \<Rightarrow> ctx \<Rightarrow> jsval \<Rightarrow> state \<Rightarrow> state" where
  "invoked method c result s1 =
     s1\<lparr>st_ctx := c\<lparr>ctx_result := result\<rparr>,
        st_trace := st_trace s1 @ [Invoked (fullName method)]\<rparr>"

text \<open>
  An invocation whose before chain, or whose after chain, fails: the state at the failure
  and the error \<open>E\<close>.
\<close>

definition chainFailure ::
  "(string \<Rightarrow> string \<Rightarrow> bool) \<Rightarrow> poplar \<Rightarrow> apiMethod \<Rightarrow> state \<Rightarrow> (state \<times> jsval) option" where
  "chainFailure mm p method s =
     (case hooksOutcome mm p ''before'' method s of
        (s1, None) \<Rightarrow> None
      | (s1, Some e) \<Rightarrow>
          if truthy e then Some (s1, e)
          else
            (case invoke method (st_ctx s1) of
               (c, HNoCallback) \<Rightarrow> None
             | (c, HCallback err result) \<Rightarrow>
                 if truthy err then None
                 else
                   (case hooksOutcome mm p ''after'' method (invoked method c result s1) of
                      (s3, None) \<Rightarrow> None
                    | (s3, Some e') \<Rightarrow> if truthy e' then Some (s3, e') else None)))"

section \<open>Validation\<close>

text \<open>The text of \<^verbatim>\<open>toString()\<close>; \<^verbatim>\<open>undefined\<close> and \<^verbatim>\<open>null\<close> have no such method.\<close>

fun toString :: "jsval \<Rightarrow> error + string" where
  "toString JUndefined = Inl TypeError"
| "toString JNull = Inl TypeError"
| "toString (JBool b) = Inr (if b then ''true'' else ''false'')"
| "toString (JNum t) = Inr t"
| "toString (JStr s) = Inr s"
| "toString (JObj d) = Inr d"

text \<open>
  \<^verbatim>\<open>ValidationError\<close>: \<^verbatim>\<open>_errors\<close> maps a parameter name to an object that maps a
  validator name to a message.
\<close>

type_synonym validationError = "jsval obj obj"

definition defaultMessage :: "string \<Rightarrow> string \<Rightarrow> string" where
  "defaultMessage name validatorName =
     name @ '': '' @ [CHR 0x27] @ validatorName @ [CHR 0x27] @ '' validation failed''"

definition add :: "string \<Rightarrow> string \<Rightarrow> jsval \<Rightarrow> validationError \<Rightarrow> validationError" where
  "add name validatorName msg errors =
     (let msg = js_or msg (JStr (defaultMessage name validatorName));
          ob = (case map_of errors name of None \<Rightarrow> [] | Some ob \<Rightarrow> ob)
      in AList.update name (AList.update validatorName msg ob) errors)"






text \<open>
  A validator spec, the value under a validator name in \<^verbatim>\<open>accept.validates\<close>: a
  function of \<^verbatim>\<open>(val, params)\<close> that returns a value or throws one, an object with
  optional \<^verbatim>\<open>args\<close> and \<^verbatim>\<open>message\<close>, or any other value (\<^verbatim>\<open>true\<close>,
  \<^verbatim>\<open>false\<close>, ...).
\<close>

datatype fnresult = Returns jsval | Throws jsval

datatype args = NoArgs | OneArg jsval | ManyArgs "jsval list"

datatype spec =
    SFun "jsval \<Rightarrow> jsval obj \<Rightarrow> fnresult"
  | SOpts args jsval
  | SPrim jsval

fun truthySpec :: "spec \<Rightarrow> bool" where
  "truthySpec (SFun f) = True"
| "truthySpec (SOpts a m) = True"
| "truthySpec (SPrim v) = truthy v"

text \<open>\<^verbatim>\<open>spec.message\<close> and \<^verbatim>\<open>spec.args\<close> of a truthy spec that is not a function.\<close>

fun specMessage :: "spec \<Rightarrow> jsval" where
  "specMessage (SOpts a m) = m"
| "specMessage _ = JUndefined"

fun specArgs :: "spec \<Rightarrow> args" where
  "specArgs (SOpts a m) = a"
| "specArgs _ = NoArgs"

text \<open>
  The arguments of the library validator: \<^verbatim>\<open>[val]\<close>, with a truthy \<^verbatim>\<open>args\<close>
  pushed and flattened.
\<close>

fun libArgs :: "jsval \<Rightarrow> args \<Rightarrow> jsval list" where
  "libArgs val NoArgs = [val]"
| "libArgs val (OneArg a) = (if truthy a then [val, a] else [val])"
| "libArgs val (ManyArgs as) = val # as"

record accept =
  arg :: string
  validates :: "spec obj"

definition getParam :: "jsval obj \<Rightarrow> string \<Rightarrow> jsval" where
  "getParam params name = (case map_of params name of None \<Rightarrow> JUndefined | Some v \<Rightarrow> v)"

text \<open>
  The two \<^verbatim>\<open>try\<close> blocks: a truthy result of the function is recorded; a thrown value
  is caught, and the handler reads its \<^verbatim>\<open>message\<close> for the log. The traversal is
  written over a recorder \<open>recorder\<close>, which in \<^verbatim>\<open>Validate\<close> is
  \<^verbatim>\<open>validationError.add\<close>.
\<close>

definition callValidator ::
  "(string \<Rightarrow> string \<Rightarrow> jsval \<Rightarrow> 's \<Rightarrow> 's) \<Rightarrow> fnresult \<Rightarrow> string \<Rightarrow> string \<Rightarrow> 's \<Rightarrow> error + 's" where
  "callValidator recorder r name validatorName errors =
     (case r of
        Returns result \<Rightarrow> Inr (if truthy result then recorder name validatorName result errors else errors)
      | Throws e \<Rightarrow> if nullish e then Inl TypeError else Inr errors)"

text \<open>\<^verbatim>\<open>_.each\<close> with a body that may raise.\<close>

fun each :: "('s \<Rightarrow> 'a \<Rightarrow> error + 's) \<Rightarrow> 'a list \<Rightarrow> 's \<Rightarrow> error + 's" where
  "each f [] s = Inr s"
| "each f (x # xs) s = (case f s x of Inl e \<Rightarrow> Inl e | Inr s' \<Rightarrow> each f xs s')"

text \<open>The branch for an empty value.\<close>

definition validateRequired ::
  "(string \<Rightarrow> string \<Rightarrow> jsval \<Rightarrow> 's \<Rightarrow> 's) \<Rightarrow> string \<Rightarrow> jsval \<Rightarrow> jsval obj \<Rightarrow> spec obj \<Rightarrow> 's \<Rightarrow> error + 's" where
  "validateRequired recorder name val params validators errors =
     (case map_of validators ''required'' of
        None \<Rightarrow> Inr errors
      | Some (SFun required) \<Rightarrow> callValidator recorder (required val params) name ''required'' errors
      | Some required \<Rightarrow>
          Inr (if truthySpec required then recorder name ''required'' (specMessage required) errors
               else errors))"

text \<open>
  The body of the inner \<^verbatim>\<open>_.each\<close>, for a value that is not empty. A falsy spec
  is replaced by \<^verbatim>\<open>{}\<close> first (\<^verbatim>\<open>validatorOpts = validatorOpts || {}\<close>), so the
  later \<^verbatim>\<open>if (!validatorOpts) { return; }\<close> never fires and has no branch here. The
  library \<^verbatim>\<open>Validator\<close> is a parameter: a name has a validator function, which
  accepts or rejects its arguments and does not throw, or none.
\<close>

definition validateOne ::
  "(string \<Rightarrow> string \<Rightarrow> jsval \<Rightarrow> 's \<Rightarrow> 's) \<Rightarrow> (string \<Rightarrow> (jsval list \<Rightarrow> bool) option) \<Rightarrow>
   string \<Rightarrow> jsval \<Rightarrow> jsval obj \<Rightarrow> 's \<Rightarrow> string \<times> spec \<Rightarrow> error + 's" where
  "validateOne recorder Validator name val params errors =
     (\<lambda>(validatorName, validatorOpts).
        (let validatorOpts = (if truthySpec validatorOpts then validatorOpts else SOpts NoArgs JUndefined)
         in case validatorOpts of
              SFun f \<Rightarrow> callValidator recorder (f val params) name validatorName errors
            | _ \<Rightarrow>
                (case Validator validatorName of
                   None \<Rightarrow> Inr errors
                 | Some validator \<Rightarrow>
                     Inr (if \<not> validator (libArgs val (specArgs validatorOpts))
                          then recorder name validatorName (specMessage validatorOpts) errors
                          else errors))))"

definition validateAccept ::
  "(string \<Rightarrow> string \<Rightarrow> jsval \<Rightarrow> 's \<Rightarrow> 's) \<Rightarrow> (jsval \<Rightarrow> bool) \<Rightarrow> (string \<Rightarrow> (jsval list \<Rightarrow> bool) option) \<Rightarrow>
   jsval obj \<Rightarrow> 's \<Rightarrow> accept \<Rightarrow> error + 's" where
  "validateAccept recorder isEmpty Validator params errors accept =
     (let name = arg accept;
          val = getParam params name;
          validators = validates accept
      in if isEmpty val then validateRequired recorder name val params validators errors
         else each (validateOne recorder Validator name val params)
                (AList.delete ''required'' validators) errors)"

definition validateWith ::
  "(string \<Rightarrow> string \<Rightarrow> jsval \<Rightarrow> 's \<Rightarrow> 's) \<Rightarrow> (jsval \<Rightarrow> bool) \<Rightarrow> (string \<Rightarrow> (jsval list \<Rightarrow> bool) option) \<Rightarrow>
   jsval obj \<Rightarrow> accept list \<Rightarrow> 's \<Rightarrow> error + 's" where
  "validateWith recorder isEmpty Validator params accepts errors =
     each (validateAccept recorder isEmpty Validator params) accepts errors"

text \<open>
  \<^verbatim>\<open>Validate(params, accepts)\<close>. The emptiness predicate \<^verbatim>\<open>helper.isEmpty\<close> and the
  validator library are parameters.
\<close>

definition Validate ::
  "(jsval \<Rightarrow> bool) \<Rightarrow> (string \<Rightarrow> (jsval list \<Rightarrow> bool) option) \<Rightarrow> jsval obj \<Rightarrow> accept list \<Rightarrow>
   error + validationError" where
  "Validate isEmpty Validator params accepts = validateWith add isEmpty Validator params accepts []"







text \<open>A function spec that returns \<^verbatim>\<open>undefined\<close> where the given one throws.\<close>

fun quietResult :: "fnresult \<Rightarrow> fnresult" where
  "quietResult (Throws e) = Returns JUndefined"
| "quietResult (Returns v) = Returns v"

fun quietSpec :: "spec \<Rightarrow> spec" where
  "quietSpec (SFun f) = SFun (\<lambda>val params. quietResult (f val params))"
| "quietSpec sp = sp"

definition quietAccept :: "accept \<Rightarrow> accept" where
  "quietAccept a = a\<lparr>validates := map (\<lambda>(validatorName, sp). (validatorName, quietSpec sp)) (validates a)\<rparr>"










section \<open>Example registries\<close>

text \<open>
  A pattern without wildcard characters matches exactly itself; the examples use only such
  patterns, so this matcher stands for the glob matcher on them.
\<close>

definition exact :: "string \<Rightarrow> string \<Rightarrow> bool" where
  "exact candidate pattern = (candidate = pattern)"

definition proceeding :: "string \<Rightarrow> hook" where
  "proceeding n = \<lparr>hname = n, hbody = (\<lambda>c. (c, Continue JUndefined))\<rparr>"

definition aborting :: "string \<Rightarrow> jsval \<Rightarrow> hook" where
  "aborting n e = \<lparr>hname = n, hbody = (\<lambda>c. (c, Continue e))\<rparr>"

definition resolving :: "string \<Rightarrow> hook" where
  "resolving n = \<lparr>hname = n, hbody = (\<lambda>c. (c, Thenable Resolved))\<rparr>"

definition start :: state where
  "start = \<lparr>st_ctx = \<lparr>ctx_result = JUndefined, ctx_error = JUndefined\<rparr>, st_trace = []\<rparr>"

text \<open>
  The registry of the test suite (\<^verbatim>\<open>generateExecuteHooks\<close>): two before hooks, two
  after hooks of which the second fails, one afterError hook that fails, all on
  \<^verbatim>\<open>test.method\<close>, registered before the collection \<^verbatim>\<open>test\<close> is used.
\<close>

definition testMethod :: apiMethod where
  "testMethod = \<lparr>fullName = ''test.method'', invoke = (\<lambda>c. (c, HCallback JUndefined JUndefined))\<rparr>"

definition failingMethod :: apiMethod where
  "failingMethod =
     \<lparr>fullName = ''test.method'',
        invoke = (\<lambda>c. (c, HCallback (JObj ''Error: boom'') (JStr ''partial'')))\<rparr>"

definition testBuilder :: apiBuilder where
  "testBuilder = \<lparr>bname = ''test'', bevents = [], bmethods = [(''method'', testMethod)]\<rparr>"

definition testHooks :: poplar where
  "testHooks =
     afterError exact ''test.method'' (aborting ''afterError'' (JObj ''Error: afterError''))
       (after exact ''test.method'' (aborting ''after_method_2'' (JObj ''Error: afterError''))
       (after exact ''test.method'' (proceeding ''after_method_1'')
       (before exact ''test.method'' (proceeding ''before_method_2'')
       (before exact ''test.method'' (proceeding ''before_method_1'') create))))"

definition testRegistry :: poplar where
  "testRegistry = (case use exact testBuilder testHooks of Inr p \<Rightarrow> p | Inl e \<Rightarrow> testHooks)"

text \<open>A collection with one method, named as a method of every plain object is.\<close>

definition toStringBuilder :: apiBuilder where
  "toStringBuilder = \<lparr>bname = ''toString'', bevents = [], bmethods = [(''method'', testMethod)]\<rparr>"

text \<open>A before hook that returns a resolved then-able, followed by a second before hook.\<close>

definition thenableRegistry :: poplar where
  "thenableRegistry =
     before exact ''test.method'' (proceeding ''second'')
       (before exact ''test.method'' (resolving ''first'') create)"

section \<open>Example validations\<close>

text \<open>
  Modelled from the spec: \<^verbatim>\<open>helper.isEmpty\<close> (\<^verbatim>\<open>lib/helper.js\<close> is not among the
  sources), an emptiness predicate that covers the absent, null and empty-string cases.
  It instantiates the parameter in the examples.
\<close>

definition helper_isEmpty :: "jsval \<Rightarrow> bool" where
  "helper_isEmpty v = (v = JUndefined \<or> v = JNull \<or> v = JStr [])"

text \<open>
  A stand-in for the validator library in the examples: \<^verbatim>\<open>isLength(str, min)\<close>, and no
  other name.
\<close>

fun natOfDigits :: "string \<Rightarrow> nat \<Rightarrow> nat option" where
  "natOfDigits [] acc = Some acc"
| "natOfDigits (c # cs) acc =
     (let k = of_char c
      in if (48::nat) \<le> k \<and> k \<le> 57 then natOfDigits cs (10 * acc + (k - 48)) else None)"

fun isLength :: "jsval list \<Rightarrow> bool" where
  "isLength [JStr s, JNum t] =
     (case natOfDigits t 0 of Some n \<Rightarrow> t \<noteq> [] \<and> n \<le> length s | None \<Rightarrow> False)"
| "isLength _ = False"

definition exampleLibrary :: "string \<Rightarrow> (jsval list \<Rightarrow> bool) option" where
  "exampleLibrary validatorName = (if validatorName = ''isLength'' then Some isLength else None)"





definition nameParams :: "jsval obj" where
  "nameParams = [(''name'', JStr ''x'')]"

definition nameRule :: "jsval \<Rightarrow> accept" where
  "nameRule thrown =
     \<lparr>arg = ''name'',
        validates = [(''required'', SPrim (JBool True)),
                     (''custom'', SFun (\<lambda>val params. Throws thrown)),
                     (''isLength'', SOpts (OneArg (JNum ''3'')) (JStr ''too short''))]\<rparr>"

section \<open>Properties of hook execution\<close>

lemma execStack_outcome:
  "execStack when stack next err s =
     (case stackOutcome when stack err s of
        (s', Some v) \<Rightarrow> next v s'
      | (s', None) \<Rightarrow> s')"
proof (induction stack arbitrary: err s)
  case Nil
  show ?case by simp
next
  case (Cons cur stack)
  show ?case
  proof (cases "truthy err")
    case True
    then show ?thesis by simp
  next
    case False
    obtain c out where b: "hbody cur (st_ctx s) = (c, out)" by (cases "hbody cur (st_ctx s)")
    show ?thesis
    proof (cases out)
      case (Continue v)
      with False b Cons.IH show ?thesis by simp
    next
      case (Thenable t)
      with False b show ?thesis by (cases t) simp_all
    next
      case (Throw e)
      with False b show ?thesis by simp
    next
      case Silent
      with False b show ?thesis by simp
    qed
  qed
qed

lemma execHooks_outcome:
  "execHooks mm p when method next s =
     (case hooksOutcome mm p when method s of
        (s', Some v) \<Rightarrow> next v s'
      | (s', None) \<Rightarrow> s')"
  by (simp add: execHooks_def hooksOutcome_def execStack_outcome)

lemma stackOutcome_trace:
  "stackOutcome when stack err s = (s', sig) \<Longrightarrow>
     \<exists>k\<le>length stack. st_trace s' = st_trace s @ ran when (take k stack)"
proof (induction stack arbitrary: err s)
  case Nil
  then show ?case by (auto simp: ran_def split: if_splits)
next
  case (Cons cur stack)
  show ?case
  proof (cases "truthy err")
    case True
    with Cons.prems have "s' = s" by simp
    then have "st_trace s' = st_trace s @ ran when (take 0 (cur # stack))" by (simp add: ran_def)
    then show ?thesis by blast
  next
    case False
    obtain c out where b: "hbody cur (st_ctx s) = (c, out)" by (cases "hbody cur (st_ctx s)")
    define s1 where "s1 = s\<lparr>st_ctx := c, st_trace := st_trace s @ [HookRan when (hname cur)]\<rparr>"
    have one: "st_trace s1 = st_trace s @ ran when (take 1 (cur # stack))"
      by (simp add: s1_def ran_def)
    show ?thesis
    proof (cases "\<exists>v. out = Continue v")
      case True
      then obtain v where o: "out = Continue v" by blast
      with False b Cons.prems have "stackOutcome when stack v s1 = (s', sig)"
        by (simp add: s1_def)
      from Cons.IH [OF this] obtain k where k: "k \<le> length stack"
        "st_trace s' = st_trace s1 @ ran when (take k stack)" by blast
      then have "st_trace s' = st_trace s @ ran when (take (Suc k) (cur # stack))"
        by (simp add: s1_def ran_def)
      with k(1) show ?thesis by (metis Suc_le_mono length_Cons)
    next
      case nc: False
      with False b Cons.prems have "s' = s1"
        by (cases out) (auto simp: s1_def Let_def split: settle.splits)
      with one have "st_trace s' = st_trace s @ ran when (take 1 (cur # stack))" by simp
      moreover have "1 \<le> length (cur # stack)" by simp
      ultimately show ?thesis by blast
    qed
  qed
qed

lemma continueAll_outcome:
  "continueAll hs (st_ctx s) = Some c \<Longrightarrow> \<not> truthy err \<Longrightarrow>
     stackOutcome when (hs @ rest) err s =
       stackOutcome when rest JUndefined (s\<lparr>st_ctx := c, st_trace := st_trace s @ ran when hs\<rparr>)"
proof (induction hs arbitrary: s err)
  case Nil
  then show ?case by (cases rest) (simp_all add: ran_def)
next
  case (Cons h hs)
  obtain c' out where b: "hbody h (st_ctx s) = (c', out)" by (cases "hbody h (st_ctx s)")
  with Cons.prems(1) obtain v where o: "out = Continue v" "\<not> truthy v" "continueAll hs c' = Some c"
    by (cases out) (auto split: if_splits)
  define s1 where "s1 = s\<lparr>st_ctx := c', st_trace := st_trace s @ [HookRan when (hname h)]\<rparr>"
  have "continueAll hs (st_ctx s1) = Some c" using o(3) by (simp add: s1_def)
  from Cons.IH [OF this o(2)]
  have "stackOutcome when (hs @ rest) v s1 =
          stackOutcome when rest JUndefined (s1\<lparr>st_ctx := c, st_trace := st_trace s1 @ ran when hs\<rparr>)" .
  moreover have "stackOutcome when ((h # hs) @ rest) err s = stackOutcome when (hs @ rest) v s1"
    using Cons.prems(2) b o(1) by (simp add: s1_def)
  moreover have "s1\<lparr>st_ctx := c, st_trace := st_trace s1 @ ran when hs\<rparr> =
                 s\<lparr>st_ctx := c, st_trace := st_trace s @ ran when (h # hs)\<rparr>"
    by (simp add: s1_def ran_def)
  ultimately show ?case by simp
qed

lemma listeners_on_same: "listeners (on t f p) t = listeners p t @ [f]"
  by (cases "map_of (events p) t") (simp_all add: listeners_def on_def update_conv' map_add_def)

lemma outcome_abort:
  assumes "continueAll pre (st_ctx s) = Some c1" "hbody h c1 = (c2, Continue e)" "truthy e"
  shows "stackOutcome when (pre @ h # post) JUndefined s =
           (s\<lparr>st_ctx := c2, st_trace := st_trace s @ ran when (pre @ [h])\<rparr>, Some e)"
proof -
  have "stackOutcome when (pre @ h # post) JUndefined s =
          stackOutcome when (h # post) JUndefined (s\<lparr>st_ctx := c1, st_trace := st_trace s @ ran when pre\<rparr>)"
    using continueAll_outcome [OF assms(1), of JUndefined "when" "h # post"] by simp
  also have "\<dots> = (s\<lparr>st_ctx := c2, st_trace := st_trace s @ ran when (pre @ [h])\<rparr>, Some e)"
    using assms(2,3) by (cases post) (simp_all add: ran_def)
  finally show ?thesis .
qed

lemma outcome_exhaust:
  assumes "continueAll hs (st_ctx s) = Some c1"
  shows "stackOutcome when hs JUndefined s =
           (s\<lparr>st_ctx := c1, st_trace := st_trace s @ ran when hs\<rparr>, Some JUndefined)"
  using continueAll_outcome [OF assms, of JUndefined "when" "[]"] by simp

lemma resolution_reports_to_next:
  assumes "\<not> truthy err" "hbody cur (st_ctx s) = (c, Thenable Resolved)"
  shows "execStack when (cur # stack) next err s =
           next JUndefined (s\<lparr>st_ctx := c, st_trace := st_trace s @ [HookRan when (hname cur)]\<rparr>)"
  using assms by simp

lemma rejection_and_throw_abort:
  assumes "\<not> truthy err" "hbody cur (st_ctx s) = (c, out)"
    and "out = Thenable (Rejected r) \<or> out = Throw r"
  shows "execStack when (cur # stack) next err s =
           next r (s\<lparr>st_ctx := c, st_trace := st_trace s @ [HookRan when (hname cur)]\<rparr>)"
  using assms by auto

lemma filter_isCallBack_ran: "filter isCallBack (ran when hs) = []"
  by (induction hs) (simp_all add: ran_def)

lemma hooksOutcome_trace:
  assumes "hooksOutcome mm p when m s = (s', sig)"
  shows "\<exists>k\<le>length (hookStack mm p when (fullName m)).
           st_trace s' = st_trace s @ ran when (take k (hookStack mm p when (fullName m)))"
  using assms stackOutcome_trace unfolding hooksOutcome_def by blast

lemma hooksOutcome_callbacks:
  assumes "hooksOutcome mm p when m s = (s', sig)"
  shows "filter isCallBack (st_trace s') = filter isCallBack (st_trace s)"
  using hooksOutcome_trace [OF assms] by (auto simp: filter_isCallBack_ran)

lemma invoke_before_ok:
  assumes "hooksOutcome mm p ''before'' m s = (s1, Some v)" "\<not> truthy v"
    and "invoke m (st_ctx s1) = (c, HCallback err result)"
  shows "invokeMethodInContext mm p m cb s =
           (if truthy err then cb err (invoked m c result s1)
            else execHooks mm p ''after'' m
                   (\<lambda>err s3. if truthy err then triggerErrorAndCallBack mm p m cb err s3
                              else cb JUndefined s3)
                   (invoked m c result s1))"
  using assms by (simp add: invokeMethodInContext_def execHooks_outcome invoked_def)

lemma chainFailure_cases:
  assumes "chainFailure mm p m s = Some (s1, E)"
  shows "truthy E \<and>
         (hooksOutcome mm p ''before'' m s = (s1, Some E) \<or>
          (\<exists>sb v c err result.
             hooksOutcome mm p ''before'' m s = (sb, Some v) \<and> \<not> truthy v \<and>
             invoke m (st_ctx sb) = (c, HCallback err result) \<and> \<not> truthy err \<and>
             hooksOutcome mm p ''after'' m (invoked m c result sb) = (s1, Some E)))"
proof -
  obtain sb sigb where b: "hooksOutcome mm p ''before'' m s = (sb, sigb)"
    by (cases "hooksOutcome mm p ''before'' m s")
  with assms obtain e where e: "sigb = Some e" by (cases sigb) (simp_all add: chainFailure_def)
  show ?thesis
  proof (cases "truthy e")
    case True
    with assms b e have "s1 = sb" "E = e" by (simp_all add: chainFailure_def)
    with True b e show ?thesis by simp
  next
    case False
    obtain c ho where i: "invoke m (st_ctx sb) = (c, ho)" by (cases "invoke m (st_ctx sb)")
    with assms b e False obtain err result where ho: "ho = HCallback err result" "\<not> truthy err"
      by (cases ho) (auto simp: chainFailure_def split: if_splits)
    obtain sa siga where a: "hooksOutcome mm p ''after'' m (invoked m c result sb) = (sa, siga)"
      by (cases "hooksOutcome mm p ''after'' m (invoked m c result sb)")
    with assms b e False i ho have "siga = Some E" "truthy E" "s1 = sa"
      by (cases siga; auto simp: chainFailure_def split: if_splits)+
    with a b e False i ho show ?thesis by blast
  qed
qed

lemma invoke_chain_failure:
  assumes "chainFailure mm p m s = Some (s1, E)"
  shows "invokeMethodInContext mm p m cb s = triggerErrorAndCallBack mm p m cb E s1"
proof -
  from chainFailure_cases [OF assms] have t: "truthy E" by simp
  from chainFailure_cases [OF assms] consider
    (before) "hooksOutcome mm p ''before'' m s = (s1, Some E)"
  | (after) sb v c err result where
      "hooksOutcome mm p ''before'' m s = (sb, Some v)" "\<not> truthy v"
      "invoke m (st_ctx sb) = (c, HCallback err result)" "\<not> truthy err"
      "hooksOutcome mm p ''after'' m (invoked m c result sb) = (s1, Some E)"
    by blast
  then show ?thesis
  proof cases
    case before
    with t show ?thesis by (simp add: invokeMethodInContext_def execHooks_outcome)
  next
    case after
    from invoke_before_ok [OF after(1,2,3), of cb] after(4,5) t show ?thesis
      by (simp add: execHooks_outcome)
  qed
qed

lemma chainFailure_callbacks:
  assumes "chainFailure mm p m s = Some (s1, E)"
  shows "filter isCallBack (st_trace s1) = filter isCallBack (st_trace s)"
proof -
  from chainFailure_cases [OF assms] consider
    (before) "hooksOutcome mm p ''before'' m s = (s1, Some E)"
  | (after) sb v c result where
      "hooksOutcome mm p ''before'' m s = (sb, Some v)"
      "hooksOutcome mm p ''after'' m (invoked m c result sb) = (s1, Some E)"
    by blast
  then show ?thesis
  proof cases
    case before
    then show ?thesis by (rule hooksOutcome_callbacks)
  next
    case after
    from hooksOutcome_callbacks [OF after(2)] hooksOutcome_callbacks [OF after(1)]
    show ?thesis by (simp add: invoked_def)
  qed
qed

lemma afterError_outcome_decides:
  assumes "chainFailure mm p m s = Some (s1, E)"
  shows "truthy E \<and>
         invokeMethodInContext mm p m cb s =
           (case hooksOutcome mm p ''afterError'' m (s1\<lparr>st_ctx := (st_ctx s1)\<lparr>ctx_error := E\<rparr>\<rparr>) of
              (s2, Some hookErr) \<Rightarrow> cb (if truthy hookErr then hookErr else E) s2
            | (s2, None) \<Rightarrow> s2) \<and>
         filter isCallBack (st_trace (invokeMethodInContext mm p m report s)) =
           filter isCallBack (st_trace s) @
           (case hooksOutcome mm p ''afterError'' m (s1\<lparr>st_ctx := (st_ctx s1)\<lparr>ctx_error := E\<rparr>\<rparr>) of
              (s2, Some hookErr) \<Rightarrow> [CallBack (if truthy hookErr then hookErr else E)]
            | (s2, None) \<Rightarrow> [])"
proof -
  define s1' where "s1' = s1\<lparr>st_ctx := (st_ctx s1)\<lparr>ctx_error := E\<rparr>\<rparr>"
  obtain s2 sig where o: "hooksOutcome mm p ''afterError'' m s1' = (s2, sig)"
    by (cases "hooksOutcome mm p ''afterError'' m s1'")
  have r: "invokeMethodInContext mm p m cb s =
          (case sig of Some hookErr \<Rightarrow> cb (if truthy hookErr then hookErr else E) s2 | None \<Rightarrow> s2)" for cb
    using invoke_chain_failure [OF assms, of cb] o
    by (simp add: triggerErrorAndCallBack_def execHooks_outcome s1'_def js_or_def split: option.splits)
  have "filter isCallBack (st_trace s1') = filter isCallBack (st_trace s)"
    using chainFailure_callbacks [OF assms] by (simp add: s1'_def)
  with hooksOutcome_callbacks [OF o]
  have c: "filter isCallBack (st_trace s2) = filter isCallBack (st_trace s)" by simp
  have "filter isCallBack (st_trace (invokeMethodInContext mm p m report s)) =
          filter isCallBack (st_trace s) @
          (case sig of Some hookErr \<Rightarrow> [CallBack (if truthy hookErr then hookErr else E)] | None \<Rightarrow> [])"
    using c by (cases sig) (simp_all add: r [of report] report_def)
  with r [of cb] o chainFailure_cases [OF assms] show ?thesis
    by (simp add: s1'_def)
qed

lemma signalling_outcome:
  assumes "\<forall>h\<in>set stack. \<forall>c. signalling (snd (hbody h c))"
  shows "\<exists>s' v. stackOutcome when stack err s = (s', Some v)"
  using assms
proof (induction stack arbitrary: err s)
  case Nil
  show ?case by simp
next
  case (Cons cur stack)
  show ?case
  proof (cases "truthy err")
    case True
    then show ?thesis by simp
  next
    case False
    obtain c out where b: "hbody cur (st_ctx s) = (c, out)" by (cases "hbody cur (st_ctx s)")
    with Cons.prems have sg: "signalling out" by (metis list.set_intros(1) snd_conv)
    from Cons.prems have rest: "\<forall>h\<in>set stack. \<forall>c. signalling (snd (hbody h c))" by simp
    show ?thesis
    proof (cases out)
      case (Continue v)
      with False b Cons.IH [OF rest] show ?thesis by simp
    next
      case (Thenable t)
      with False b sg show ?thesis by (cases t) simp_all
    next
      case (Throw e)
      with False b show ?thesis by simp
    next
      case Silent
      with sg show ?thesis by simp
    qed
  qed
qed

lemmas example_defs =
  testRegistry_def testHooks_def use_def before_def after_def afterError_def create_def on_def
  analyzeListenerTree_def analyzeStep_def phases_def searchListeners_def keys_def exact_def
  testBuilder_def mergeListeners_def mergeMethods_def installMethod_def testMethod_def
  hookStack_def searchListenerTree_def listeners_def proceeding_def aborting_def Let_def

section \<open>Claims about the invocation orchestrator\<close>

text \<open>
  C1. When the before hooks all succeed (the before chain reports no error) and the
  handler's callback then reports an error (a truthy value, as \<^verbatim>\<open>if (err)\<close> tests
  it), \<^verbatim>\<open>invokeMethodInContext\<close> calls the final
  callback with that error, in the state right after the invocation, and no afterError hook
  runs: what an observer sees is before hooks, the invocation, the callback with the
  handler's error, and nothing else.
\<close>

theorem handler_error_reported_directly:
  assumes "hooksOutcome mm p ''before'' m s = (s1, Some v)" "\<not> truthy v"
    and "invoke m (st_ctx s1) = (c, HCallback err result)" "truthy err"
  shows "invokeMethodInContext mm p m cb s = cb err (invoked m c result s1) \<and>
         (\<exists>k\<le>length (hookStack mm p ''before'' (fullName m)).
            st_trace (invokeMethodInContext mm p m report s) =
              st_trace s @ ran ''before'' (take k (hookStack mm p ''before'' (fullName m)))
                @ [Invoked (fullName m), CallBack err])"
proof -
  have a: "invokeMethodInContext mm p m cb s = cb err (invoked m c result s1)" for cb
    using invoke_before_ok [OF assms(1,2,3)] assms(4) by simp
  from hooksOutcome_trace [OF assms(1)] obtain k where
    k: "k \<le> length (hookStack mm p ''before'' (fullName m))"
       "st_trace s1 = st_trace s @ ran ''before'' (take k (hookStack mm p ''before'' (fullName m)))"
    by blast
  have "st_trace (invokeMethodInContext mm p m report s) =
          st_trace s1 @ [Invoked (fullName m), CallBack err]"
    by (simp add: a report_def invoked_def)
  with k a show ?thesis by auto
qed

theorem handler_error_reported_directly_witness:
  "st_trace (invokeMethodInContext exact testRegistry failingMethod report start) =
     [HookRan ''before'' ''before_method_1'', HookRan ''before'' ''before_method_2'',
      Invoked ''test.method'', CallBack (JObj ''Error: boom'')]"
proof -
  define s1 where "s1 = start\<lparr>st_trace := [HookRan ''before'' ''before_method_1'',
                                           HookRan ''before'' ''before_method_2'']\<rparr>"
  have h1: "hooksOutcome exact testRegistry ''before'' failingMethod start = (s1, Some JUndefined)"
    unfolding s1_def by code_simp
  have h2: "\<not> truthy JUndefined" by simp
  have h3: "invoke failingMethod (st_ctx s1) =
              (st_ctx start, HCallback (JObj ''Error: boom'') (JStr ''partial''))"
    unfolding s1_def by code_simp
  have h4: "truthy (JObj ''Error: boom'')" by simp
  from handler_error_reported_directly [OF h1 h2 h3 h4, of report]
  have "invokeMethodInContext exact testRegistry failingMethod report start =
          report (JObj ''Error: boom'') (invoked failingMethod (st_ctx start) (JStr ''partial'') s1)"
    by simp
  then show ?thesis by (simp add: report_def invoked_def s1_def failingMethod_def)
qed

text \<open>
  C10, as the code has it. Once the before chain has succeeded and the handler calls back
  with \<^verbatim>\<open>(err, result)\<close>, the result slot of the context holds \<open>result\<close>
  whatever \<open>err\<close> is: the assignment precedes the error check. On a handler failure
  the context carries the result value the handler passed, and the error signal goes to the
  final callback as its argument; the error slot of the context is not written and stays as
  the handler left it.
\<close>

theorem result_slot_assigned_before_error_check:
  assumes "hooksOutcome mm p ''before'' m s = (s1, Some v)" "\<not> truthy v"
    and "invoke m (st_ctx s1) = (c, HCallback err result)"
  shows "invokeMethodInContext mm p m cb s =
           (if truthy err then cb err (invoked m c result s1)
            else execHooks mm p ''after'' m
                   (\<lambda>err s3. if truthy err then triggerErrorAndCallBack mm p m cb err s3
                              else cb JUndefined s3)
                   (invoked m c result s1))
         \<and> ctx_result (st_ctx (invoked m c result s1)) = result
         \<and> ctx_error (st_ctx (invoked m c result s1)) = ctx_error c"
  using invoke_before_ok [OF assms] by (simp add: invoked_def)

theorem result_slot_assigned_before_error_check_witness:
  "ctx_result (st_ctx (invokeMethodInContext exact testRegistry failingMethod report start)) =
     JStr ''partial''"
proof -
  define s1 where "s1 = start\<lparr>st_trace := [HookRan ''before'' ''before_method_1'',
                                           HookRan ''before'' ''before_method_2'']\<rparr>"
  have h1: "hooksOutcome exact testRegistry ''before'' failingMethod start = (s1, Some JUndefined)"
    unfolding s1_def by code_simp
  have h2: "\<not> truthy JUndefined" by simp
  have h3: "invoke failingMethod (st_ctx s1) =
              (st_ctx start, HCallback (JObj ''Error: boom'') (JStr ''partial''))"
    unfolding s1_def by code_simp
  from result_slot_assigned_before_error_check [OF h1 h2 h3, of report]
  have "invokeMethodInContext exact testRegistry failingMethod report start =
          report (JObj ''Error: boom'') (invoked failingMethod (st_ctx start) (JStr ''partial'') s1)"
    by simp
  then show ?thesis by (simp add: report_def invoked_def)
qed

text \<open>
  C3. When the before chain or the after chain fails with an error \<open>E\<close>, the
  error slot of the context is set to \<open>E\<close>, then the afterError hooks run on that
  context; with afterError hooks that signal completion (each calls its continuation,
  returns a then-able that settles, or throws), their chain reports, the
  final callback receives the afterError error when the chain produced one and \<open>E\<close>
  otherwise, and it is called exactly once: an observer sees one more callback than before
  the invocation, this one.
\<close>

theorem chain_failure_goes_through_afterError:
  assumes "chainFailure mm p m s = Some (s1, E)"
    and "\<forall>h\<in>set (hookStack mm p ''afterError'' (fullName m)). \<forall>c. signalling (snd (hbody h c))"
  shows "truthy E \<and>
         (\<exists>s2 hookErr.
            hooksOutcome mm p ''afterError'' m (s1\<lparr>st_ctx := (st_ctx s1)\<lparr>ctx_error := E\<rparr>\<rparr>) =
              (s2, Some hookErr) \<and>
            invokeMethodInContext mm p m cb s = cb (if truthy hookErr then hookErr else E) s2 \<and>
            filter isCallBack (st_trace (invokeMethodInContext mm p m report s)) =
              filter isCallBack (st_trace s) @ [CallBack (if truthy hookErr then hookErr else E)])"
proof -
  define s1' where "s1' = s1\<lparr>st_ctx := (st_ctx s1)\<lparr>ctx_error := E\<rparr>\<rparr>"
  from signalling_outcome [OF assms(2), of "''afterError''" JUndefined s1']
  obtain s2 hookErr where o: "hooksOutcome mm p ''afterError'' m s1' = (s2, Some hookErr)"
    by (auto simp: hooksOutcome_def)
  from afterError_outcome_decides [OF assms(1), of cb] o
  show ?thesis by (simp add: s1'_def)
qed

theorem chain_failure_goes_through_afterError_witness:
  "invokeMethodInContext exact testRegistry testMethod report start =
     start\<lparr>st_ctx := \<lparr>ctx_result = JUndefined, ctx_error = JObj ''Error: afterError''\<rparr>,
           st_trace := [HookRan ''before'' ''before_method_1'', HookRan ''before'' ''before_method_2'',
                        Invoked ''test.method'',
                        HookRan ''after'' ''after_method_1'', HookRan ''after'' ''after_method_2'',
                        HookRan ''afterError'' ''afterError'',
                        CallBack (JObj ''Error: afterError'')]\<rparr>"
proof -
  define s3 where "s3 = start\<lparr>st_trace := [HookRan ''before'' ''before_method_1'',
      HookRan ''before'' ''before_method_2'', Invoked ''test.method'',
      HookRan ''after'' ''after_method_1'', HookRan ''after'' ''after_method_2'']\<rparr>"
  define s4 where "s4 = s3\<lparr>st_ctx := \<lparr>ctx_result = JUndefined, ctx_error = JObj ''Error: afterError''\<rparr>,
      st_trace := st_trace s3 @ [HookRan ''afterError'' ''afterError'']\<rparr>"
  have h: "chainFailure exact testRegistry testMethod start = Some (s3, JObj ''Error: afterError'')"
    unfolding s3_def by code_simp
  have st: "hookStack exact testRegistry ''afterError'' (fullName testMethod) =
              [aborting ''afterError'' (JObj ''Error: afterError'')]"
    by (simp add: example_defs)
  have g: "\<forall>h\<in>set (hookStack exact testRegistry ''afterError'' (fullName testMethod)).
             \<forall>c. signalling (snd (hbody h c))"
    by (simp add: st aborting_def)
  have o: "hooksOutcome exact testRegistry ''afterError'' testMethod
             (s3\<lparr>st_ctx := (st_ctx s3)\<lparr>ctx_error := JObj ''Error: afterError''\<rparr>\<rparr>) =
           (s4, Some (JObj ''Error: afterError''))"
    unfolding s3_def s4_def by code_simp
  from chain_failure_goes_through_afterError [OF h g, of report] o
  have "invokeMethodInContext exact testRegistry testMethod report start =
          report (JObj ''Error: afterError'') s4"
    by auto
  then show ?thesis by (simp add: report_def s4_def s3_def start_def)
qed

text \<open>
  C10, as stated, fails in its last clause: after a handler failure the final callback has
  the error and the context has the result, but the error slot of the context is still
  \<^verbatim>\<open>undefined\<close>.
\<close>

theorem handler_failure_leaves_error_slot:
  "st_trace (invokeMethodInContext exact testRegistry failingMethod report start) =
     [HookRan ''before'' ''before_method_1'', HookRan ''before'' ''before_method_2'',
      Invoked ''test.method'', CallBack (JObj ''Error: boom'')] \<and>
   ctx_result (st_ctx (invokeMethodInContext exact testRegistry failingMethod report start)) =
     JStr ''partial'' \<and>
   ctx_error (st_ctx (invokeMethodInContext exact testRegistry failingMethod report start)) =
     JUndefined"
  by code_simp

section \<open>Claims about hook execution\<close>

text \<open>
  C4. \<^verbatim>\<open>execHooks\<close> runs the hooks of the stack one after the other in the order of
  the stack, which lists the matched patterns in order and the listeners of each pattern
  in registration order: the hooks that ran are always an initial part of the stack, after
  which \<^verbatim>\<open>next\<close> is called at most once. When a hook passes an error (a truthy
  value) to its continuation, \<^verbatim>\<open>next\<close> receives that error and the hooks after it
  have not run.
  When every hook continues without an error, all have run, in order, and \<^verbatim>\<open>next\<close>
  is called without an error. The stack is the concatenation, in the order of the matched
  pattern names (from the tree, or from the live scan), of the listeners of each name, and
  registering a listener appends it to the listeners of its pattern.
\<close>

theorem execHooks_sequential:
  fixes mm p "when" m "next" s
  defines "stack \<equiv> hookStack mm p when (fullName m)"
  shows
  "(\<exists>k\<le>length stack. \<exists>s'.
      st_trace s' = st_trace s @ ran when (take k stack) \<and>
      (execHooks mm p when m next s = s' \<or> (\<exists>v. execHooks mm p when m next s = next v s')))
   \<and> (\<forall>pre h post c1 c2 e.
        stack = pre @ h # post \<longrightarrow> continueAll pre (st_ctx s) = Some c1 \<longrightarrow>
        hbody h c1 = (c2, Continue e) \<longrightarrow> truthy e \<longrightarrow>
        execHooks mm p when m next s =
          next e (s\<lparr>st_ctx := c2, st_trace := st_trace s @ ran when (pre @ [h])\<rparr>))
   \<and> (\<forall>c1. continueAll stack (st_ctx s) = Some c1 \<longrightarrow>
        execHooks mm p when m next s =
          next JUndefined (s\<lparr>st_ctx := c1, st_trace := st_trace s @ ran when stack\<rparr>))
   \<and> (\<exists>names. stack = concat (map (listeners p) names) \<and>
          (searchListenerTree p (fullName m) when = Some names \<or>
           names = searchListeners mm p (fullName m) when))
   \<and> listeners (on pattern fn p) pattern = listeners p pattern @ [fn]"
proof (intro conjI allI impI)
  obtain s' sig where o: "stackOutcome when stack JUndefined s = (s', sig)"
    by (cases "stackOutcome when stack JUndefined s")
  from stackOutcome_trace [OF o] obtain k where
    k: "k \<le> length stack" "st_trace s' = st_trace s @ ran when (take k stack)" by blast
  have "execHooks mm p when m next s = s' \<or> (\<exists>v. execHooks mm p when m next s = next v s')"
    using o by (cases sig) (auto simp: execHooks_outcome hooksOutcome_def stack_def)
  with k show "\<exists>k\<le>length stack. \<exists>s'.
      st_trace s' = st_trace s @ ran when (take k stack) \<and>
      (execHooks mm p when m next s = s' \<or> (\<exists>v. execHooks mm p when m next s = next v s'))"
    by blast
next
  fix pre h post c1 c2 e
  assume "stack = pre @ h # post" "continueAll pre (st_ctx s) = Some c1"
    "hbody h c1 = (c2, Continue e)" "truthy e"
  then show "execHooks mm p when m next s =
          next e (s\<lparr>st_ctx := c2, st_trace := st_trace s @ ran when (pre @ [h])\<rparr>)"
    using outcome_abort [of pre s c1 h c2 e "when" post]
    by (simp add: execHooks_outcome hooksOutcome_def stack_def)
next
  fix c1
  assume "continueAll stack (st_ctx s) = Some c1"
  then show "execHooks mm p when m next s =
          next JUndefined (s\<lparr>st_ctx := c1, st_trace := st_trace s @ ran when stack\<rparr>)"
    using outcome_exhaust [of stack s c1 "when"]
    by (simp add: execHooks_outcome hooksOutcome_def stack_def)
next
  show "\<exists>names. stack = concat (map (listeners p) names) \<and>
          (searchListenerTree p (fullName m) when = Some names \<or>
           names = searchListeners mm p (fullName m) when)"
    by (cases "searchListenerTree p (fullName m) when")
       (auto simp: stack_def hookStack_def)
next
  show "listeners (on pattern fn p) pattern = listeners p pattern @ [fn]"
    by (rule listeners_on_same)
qed

theorem execHooks_sequential_witness:
  "execHooks exact testRegistry ''after'' testMethod report start =
     start\<lparr>st_trace := [HookRan ''after'' ''after_method_1'', HookRan ''after'' ''after_method_2'',
                          CallBack (JObj ''Error: afterError'')]\<rparr> \<and>
   execHooks exact testRegistry ''before'' testMethod report start =
     start\<lparr>st_trace := [HookRan ''before'' ''before_method_1'', HookRan ''before'' ''before_method_2'',
                          CallBack JUndefined]\<rparr>"
proof -
  have sa: "hookStack exact testRegistry ''after'' (fullName testMethod) =
              [proceeding ''after_method_1''] @ aborting ''after_method_2'' (JObj ''Error: afterError'') # []"
    by (simp add: example_defs)
  have sb: "hookStack exact testRegistry ''before'' (fullName testMethod) =
              [proceeding ''before_method_1'', proceeding ''before_method_2'']"
    by (simp add: example_defs)
  have ca: "continueAll [proceeding ''after_method_1''] (st_ctx start) = Some (st_ctx start)"
    by (simp add: proceeding_def)
  have ha: "hbody (aborting ''after_method_2'' (JObj ''Error: afterError'')) (st_ctx start) =
              (st_ctx start, Continue (JObj ''Error: afterError''))"
    by (simp add: aborting_def)
  have ta: "truthy (JObj ''Error: afterError'')" by simp
  have cb: "continueAll (hookStack exact testRegistry ''before'' (fullName testMethod)) (st_ctx start) =
              Some (st_ctx start)"
    by (simp add: sb proceeding_def)
  note a = execHooks_sequential [of exact testRegistry "''after''" testMethod start report,
      THEN conjunct2, THEN conjunct1, rule_format, OF sa ca ha ta]
  note b = execHooks_sequential [of exact testRegistry "''before''" testMethod start report,
      THEN conjunct2, THEN conjunct2, THEN conjunct1, rule_format, OF cb]
  show ?thesis
    unfolding a b by (simp add: sb report_def ran_def proceeding_def aborting_def start_def)
qed

text \<open>
  C2. The then-able branch of \<^verbatim>\<open>execStack\<close> hands a resolution to the caller's
  \<^verbatim>\<open>next\<close>, not to \<^verbatim>\<open>execStack\<close>: with two before hooks registered, of which
  the first returns a then-able that resolves, the stack holds both, the first runs, and
  \<^verbatim>\<open>next\<close> is called without an error while the second has not run.
\<close>

theorem thenable_resolution_skips_remaining_hooks:
  "map hname (hookStack exact thenableRegistry ''before'' (fullName testMethod)) = [''first'', ''second''] \<and>
   st_trace (execHooks exact thenableRegistry ''before'' testMethod report start) =
     [HookRan ''before'' ''first'', CallBack JUndefined]"
  by code_simp

section \<open>Properties of the registry\<close>

lemma analyzeStep_other:
  "M \<noteq> name \<Longrightarrow> map_of (analyzeStep mm p tree name) M = map_of tree M"
  by (simp add: analyzeStep_def Let_def update_conv')

lemma analyzeStep_same: "goodEntry mm p (analyzeStep mm p tree name) name"
  by (auto simp: goodEntry_def analyzeStep_def Let_def update_conv' phases_def)

lemma analyzeStep_good:
  "goodEntry mm p tree M \<or> M = name \<Longrightarrow> goodEntry mm p (analyzeStep mm p tree name) M"
  using analyzeStep_same [of mm p tree name] analyzeStep_other [of M name mm p tree]
  by (cases "M = name") (auto simp: goodEntry_def)

lemma analyze_fold_good:
  "goodEntry mm p tree M \<or> M \<in> set names \<Longrightarrow>
     goodEntry mm p (foldl (analyzeStep mm p) tree names) M"
proof (induction names arbitrary: tree)
  case Nil
  then show ?case by simp
next
  case (Cons name names)
  have "goodEntry mm p (analyzeStep mm p tree name) M \<or> M \<in> set names"
    using Cons.prems analyzeStep_good [of mm p tree M name] by auto
  from Cons.IH [OF this] show ?case by simp
qed

lemma searchListeners_analyze [simp]:
  "searchListeners mm (analyzeListenerTree mm p) = searchListeners mm p"
  by (simp add: fun_eq_iff searchListeners_def analyzeListenerTree_def)

lemma tree_lookup_fresh:
  assumes "M \<in> set (keys (methods p))" "phase \<in> set phases"
  shows "searchListenerTree (analyzeListenerTree mm p) M phase = Some (searchListeners mm p M phase)"
proof -
  have "goodEntry mm p (foldl (analyzeStep mm p) [] (keys (methods p))) M"
    using assms(1) by (intro analyze_fold_good) simp
  with assms(2) show ?thesis
    by (auto simp: goodEntry_def searchListenerTree_def analyzeListenerTree_def)
qed

lemma hookStack_scan:
  assumes "searchListenerTree p M phase = Some (searchListeners mm p M phase)"
  shows "hookStack mm p phase M = concat (map (listeners p) (searchListeners mm p M phase))"
  using assms by (simp add: hookStack_def)

lemma install_inv:
  "set ms \<subseteq> A \<Longrightarrow>
   (m \<in> set (keys ms) \<or> (\<exists>fn. map_of (methods p) (name @ ''.'' @ m) = Some fn \<and> (m, fn) \<in> A)) \<Longrightarrow>
   \<exists>fn. map_of (methods (foldl (installMethod name) p ms)) (name @ ''.'' @ m) = Some fn \<and> (m, fn) \<in> A"
proof (induction ms arbitrary: p)
  case Nil
  then show ?case by (simp add: keys_def)
next
  case (Cons x ms)
  obtain m' fn' where x: "x = (m', fn')" by (cases x)
  have "m \<in> set (keys ms) \<or>
        (\<exists>fn. map_of (methods (installMethod name p x)) (name @ ''.'' @ m) = Some fn \<and> (m, fn) \<in> A)"
    using Cons.prems x by (auto simp: installMethod_def update_conv' keys_def)
  moreover have "set ms \<subseteq> A" using Cons.prems by simp
  ultimately show ?case using Cons.IH [of "installMethod name p x"] by simp
qed

lemma install_apiBuilders: "apiBuilders (foldl (installMethod name) p ms) = apiBuilders p"
  by (induction ms arbitrary: p) (auto simp: installMethod_def)

lemma install_events: "events (foldl (installMethod name) p ms) = events p"
  by (induction ms arbitrary: p) (auto simp: installMethod_def)

lemma on_fold_apiBuilders: "apiBuilders (foldl (\<lambda>r fn. on type fn r) q fns) = apiBuilders q"
  by (induction fns arbitrary: q) (simp_all add: on_def)

lemma mergeListeners_apiBuilders: "apiBuilders (mergeListeners b q) = apiBuilders q"
proof -
  have "apiBuilders (foldl (\<lambda>q (type, fns). foldl (\<lambda>r fn. on type fn r) q fns) q evs) = apiBuilders q" for evs
    by (induction evs arbitrary: q) (auto simp: on_fold_apiBuilders)
  then show ?thesis by (simp add: mergeListeners_def)
qed

text \<open>
  For every other name \<^verbatim>\<open>use\<close> does what is expected of it: a name that is in the
  registry raises the assertion error; a first use stores the builder, installs each of its
  methods under \<^verbatim>\<open>collection.method\<close>, and returns a registry whose listener tree is
  up to date for every method of the registry and every phase.
\<close>

lemma use_plain_name:
  "(hasBuilder p (bname b) \<longrightarrow>
      use mm b p = Inl (AssertionError (''Can't use the same ApiBuilder: '' @ bname b @ '' more than once!'')))
   \<and> (\<not> hasBuilder p (bname b) \<longrightarrow>
        (\<exists>p'. use mm b p = Inr p' \<and>
           map_of (apiBuilders p') (bname b) = Some b \<and>
           (\<forall>methodName\<in>set (keys (bmethods b)).
              \<exists>fn. map_of (methods p') (bname b @ ''.'' @ methodName) = Some fn \<and>
                   (methodName, fn) \<in> set (bmethods b)) \<and>
           (\<forall>M\<in>set (keys (methods p')). \<forall>phase\<in>set phases.
              searchListenerTree p' M phase = Some (searchListeners mm p' M phase))))"
proof (intro conjI impI)
  assume "hasBuilder p (bname b)"
  then show "use mm b p = Inl (AssertionError (''Can't use the same ApiBuilder: '' @ bname b @ '' more than once!''))"
    by (simp add: use_def)
next
  assume n: "\<not> hasBuilder p (bname b)"
  define p1 where "p1 = p\<lparr>apiBuilders := AList.update (bname b) b (apiBuilders p)\<rparr>"
  define p3 where "p3 = mergeMethods (bname b) b (mergeListeners b p1)"
  define p' where "p' = analyzeListenerTree mm p3"
  have u: "use mm b p = Inr p'" using n by (simp add: use_def p'_def p3_def p1_def Let_def)
  have ml: "apiBuilders (mergeListeners b q) = apiBuilders q" for q
    by (rule mergeListeners_apiBuilders)
  have ab: "map_of (apiBuilders p') (bname b) = Some b"
    by (simp add: p'_def p3_def analyzeListenerTree_def mergeMethods_def install_apiBuilders ml p1_def update_conv')
  have ms: "\<exists>fn. map_of (methods p') (bname b @ ''.'' @ methodName) = Some fn \<and>
                   (methodName, fn) \<in> set (bmethods b)" if "methodName \<in> set (keys (bmethods b))" for methodName
    using install_inv [of "bmethods b" "set (bmethods b)" methodName "mergeListeners b p1" "bname b"] that
    by (simp add: p'_def p3_def analyzeListenerTree_def mergeMethods_def)
  have tr: "searchListenerTree p' M phase = Some (searchListeners mm p' M phase)"
    if "M \<in> set (keys (methods p'))" "phase \<in> set phases" for M phase
  proof -
    from that(1) have "M \<in> set (keys (methods p3))" by (simp add: p'_def analyzeListenerTree_def)
    from tree_lookup_fresh [OF this that(2), of mm] show ?thesis by (simp add: p'_def)
  qed
  from u ab ms tr show "\<exists>p'. use mm b p = Inr p' \<and>
           map_of (apiBuilders p') (bname b) = Some b \<and>
           (\<forall>methodName\<in>set (keys (bmethods b)).
              \<exists>fn. map_of (methods p') (bname b @ ''.'' @ methodName) = Some fn \<and>
                   (methodName, fn) \<in> set (bmethods b)) \<and>
           (\<forall>M\<in>set (keys (methods p')). \<forall>phase\<in>set phases.
              searchListenerTree p' M phase = Some (searchListeners mm p' M phase))"
    by blast
qed

lemma use_plain_name_example:
  "use exact testBuilder testRegistry =
     Inl (AssertionError ''Can't use the same ApiBuilder: test more than once!'') \<and>
   (\<exists>p' fn. use exact testBuilder testHooks = Inr p' \<and>
      map_of (apiBuilders p') ''test'' = Some testBuilder \<and>
      map_of (methods p') ''test.method'' = Some fn \<and>
      searchListenerTree p' ''test.method'' ''before'' = Some (searchListeners exact p' ''test.method'' ''before''))"
proof -
  have h1: "hasBuilder testRegistry (bname testBuilder)"
    by (simp add: example_defs hasBuilder_def inheritedNames_def)
  have h2: "\<not> hasBuilder testHooks (bname testBuilder)"
    by (simp add: example_defs hasBuilder_def inheritedNames_def)
  have n: "bname testBuilder = ''test''" by (simp add: testBuilder_def)
  have k: "''method'' \<in> set (keys (bmethods testBuilder))" by (simp add: testBuilder_def keys_def)
  have ph: "''before'' \<in> set phases" by (simp add: phases_def)
  note a = use_plain_name [of testRegistry testBuilder exact, THEN conjunct1, rule_format, OF h1]
  from use_plain_name [of testHooks testBuilder exact, THEN conjunct2, rule_format, OF h2]
  obtain p' where p': "use exact testBuilder testHooks = Inr p'"
    "map_of (apiBuilders p') (bname testBuilder) = Some testBuilder"
    "\<forall>methodName\<in>set (keys (bmethods testBuilder)).
       \<exists>fn. map_of (methods p') (bname testBuilder @ ''.'' @ methodName) = Some fn \<and>
            (methodName, fn) \<in> set (bmethods testBuilder)"
    "\<forall>M\<in>set (keys (methods p')). \<forall>phase\<in>set phases.
       searchListenerTree p' M phase = Some (searchListeners exact p' M phase)"
    by blast
  from p'(3) k obtain fn where fn: "map_of (methods p') (''test'' @ ''.'' @ ''method'') = Some fn"
    unfolding n by blast
  then have "''test.method'' \<in> set (keys (methods p'))"
    by (auto simp: keys_def dest: map_of_SomeD intro: rev_image_eqI)
  with p'(4) ph have "searchListenerTree p' ''test.method'' ''before'' =
                        Some (searchListeners exact p' ''test.method'' ''before'')"
    by blast
  with a p'(1,2) fn show ?thesis unfolding n by auto
qed

section \<open>Claims about the registry\<close>

text \<open>
  C5. For every method name in the method registry and every phase, the lookup in the
  listener tree that \<^verbatim>\<open>analyzeListenerTree\<close> has just built yields the list that the
  live scan \<^verbatim>\<open>searchListeners\<close> yields; that list holds exactly the registered
  patterns that the glob matcher accepts for \<^verbatim>\<open>phase.method\<close>, in registry order; and
  the stack \<^verbatim>\<open>execHooks\<close> builds is the one of the live scan, whether the names come
  from the tree or from the fallback.
\<close>

theorem tree_lookup_equals_live_scan:
  assumes "M \<in> set (keys (methods p))" "phase \<in> set phases"
  shows "searchListenerTree (analyzeListenerTree mm p) M phase =
           Some (searchListeners mm (analyzeListenerTree mm p) M phase)
         \<and> searchListeners mm (analyzeListenerTree mm p) M phase =
             filter (\<lambda>P. mm (phase @ ''.'' @ M) P) (keys (events p))
         \<and> set (searchListeners mm (analyzeListenerTree mm p) M phase) =
             {P \<in> set (keys (events p)). mm (phase @ ''.'' @ M) P}
         \<and> hookStack mm (analyzeListenerTree mm p) phase M =
             concat (map (listeners (analyzeListenerTree mm p))
                       (searchListeners mm (analyzeListenerTree mm p) M phase))"
proof -
  have a: "searchListenerTree (analyzeListenerTree mm p) M phase =
           Some (searchListeners mm (analyzeListenerTree mm p) M phase)"
    using tree_lookup_fresh [OF assms] by simp
  have b: "searchListeners mm p M phase = filter (\<lambda>P. mm (phase @ ''.'' @ M) P) (keys (events p))"
    by (simp add: searchListeners_def)
  from a b hookStack_scan [OF a] show ?thesis by simp
qed

theorem tree_lookup_equals_live_scan_witness:
  "searchListenerTree (analyzeListenerTree exact testRegistry) ''test.method'' ''afterError'' =
     Some [''afterError.test.method''] \<and>
   map hname (hookStack exact (analyzeListenerTree exact testRegistry) ''afterError'' ''test.method'') =
     [''afterError'']"
proof -
  have h1: "''test.method'' \<in> set (keys (methods testRegistry))" by code_simp
  have h2: "''afterError'' \<in> set phases" by (simp add: phases_def)
  have e: "filter (\<lambda>P. exact (''afterError'' @ ''.'' @ ''test.method'') P) (keys (events testRegistry)) =
             [''afterError.test.method'']"
    by code_simp
  have l: "map hname (concat (map (listeners (analyzeListenerTree exact testRegistry)) [''afterError.test.method''])) =
             [''afterError'']"
    by code_simp
  from tree_lookup_equals_live_scan [OF h1 h2, of exact] e l show ?thesis by simp
qed

text \<open>
  C9. A first use of a collection named \<^verbatim>\<open>toString\<close> in a new registry, which holds
  no builder at all, raises the assertion error of a second use and installs nothing: the
  test \<^verbatim>\<open>!this._apiBuilders[name]\<close> finds the method every plain object inherits.
\<close>

theorem inherited_name_refused_on_first_use:
  "keys (apiBuilders create) = [] \<and>
   use exact toStringBuilder create =
     Inl (AssertionError ''Can't use the same ApiBuilder: toString more than once!'')"
  by (simp add: use_def hasBuilder_def inheritedNames_def toStringBuilder_def create_def keys_def)

section \<open>Properties of validation\<close>

subsection \<open>The recorder sees the failures in order\<close>









subsection \<open>Which failures are recorded\<close>








subsection \<open>What the recorded failures build\<close>











lemma map_of_keys: "map_of e n = Some ob \<Longrightarrow> (n, ob) \<in> set e"
  by (rule map_of_SomeD)










subsection \<open>The log holds the failing validators\<close>











subsection \<open>A validator that throws\<close>

text \<open>
  When \<^verbatim>\<open>Validate\<close> returns, a function validator that threw has left no trace:
  the result is the one obtained when each such function returns \<^verbatim>\<open>undefined\<close>
  instead, and a thrown value that is neither \<^verbatim>\<open>undefined\<close> nor \<^verbatim>\<open>null\<close>
  leaves the errors as they were.
\<close>

lemma callValidator_quiet:
  "callValidator rec r n v s = Inr s' \<Longrightarrow> callValidator rec (quietResult r) n v s = Inr s'"
  by (cases r) (auto simp: callValidator_def split: if_splits)

lemma truthySpec_quiet [simp]: "truthySpec (quietSpec sp) = truthySpec sp"
  by (cases sp) simp_all

lemma map_of_quiet:
  "map_of (map (\<lambda>(validatorName, sp). (validatorName, quietSpec sp)) vs) k =
     map_option quietSpec (map_of vs k)"
  by (induction vs) auto

lemma delete_quiet:
  "AList.delete k (map (\<lambda>(validatorName, sp). (validatorName, quietSpec sp)) vs) =
     map (\<lambda>(validatorName, sp). (validatorName, quietSpec sp)) (AList.delete k vs)"
  by (induction vs) auto

lemma validateRequired_quiet:
  assumes "validateRequired rec n val ps vs s = Inr s'"
  shows "validateRequired rec n val ps (map (\<lambda>(validatorName, sp). (validatorName, quietSpec sp)) vs) s = Inr s'"
proof (cases "map_of vs ''required''")
  case None
  with assms show ?thesis by (simp add: validateRequired_def map_of_quiet)
next
  case (Some sp)
  with assms show ?thesis
    by (cases sp) (simp_all add: validateRequired_def map_of_quiet callValidator_quiet)
qed

lemma validateOne_quiet:
  assumes "validateOne rec V n val ps s (vn, sp) = Inr s'"
  shows "validateOne rec V n val ps s (vn, quietSpec sp) = Inr s'"
proof (cases sp)
  case (SFun f)
  with assms show ?thesis by (simp add: validateOne_def callValidator_quiet)
next
  case (SOpts x y)
  with assms show ?thesis by simp
next
  case (SPrim x)
  with assms show ?thesis by simp
qed

lemma each_quiet:
  assumes "\<And>s x s'. f s x = Inr s' \<Longrightarrow> g s (q x) = Inr s'"
  shows "each f xs s = Inr s' \<Longrightarrow> each g (map q xs) s = Inr s'"
proof (induction xs arbitrary: s)
  case Nil
  then show ?case by simp
next
  case (Cons x xs)
  from Cons.prems obtain s1 where s1: "f s x = Inr s1" "each f xs s1 = Inr s'"
    by (auto split: sum.splits)
  from assms [OF s1(1)] Cons.IH [OF s1(2)] show ?case by simp
qed

lemma validateAccept_quiet:
  assumes "validateAccept rec isEmpty V ps s a = Inr s'"
  shows "validateAccept rec isEmpty V ps s (quietAccept a) = Inr s'"
proof (cases "isEmpty (getParam ps (arg a))")
  case True
  with assms validateRequired_quiet [of rec "arg a" "getParam ps (arg a)" ps "validates a" s s']
  show ?thesis by (simp add: validateAccept_def quietAccept_def Let_def)
next
  case False
  with assms have e: "each (validateOne rec V (arg a) (getParam ps (arg a)) ps)
                        (AList.delete ''required'' (validates a)) s = Inr s'"
    by (simp add: validateAccept_def Let_def)
  have "each (validateOne rec V (arg a) (getParam ps (arg a)) ps)
          (map (\<lambda>(validatorName, sp). (validatorName, quietSpec sp)) (AList.delete ''required'' (validates a))) s
        = Inr s'"
  proof (rule each_quiet [OF _ e])
    fix s x s'
    assume "validateOne rec V (arg a) (getParam ps (arg a)) ps s x = Inr s'"
    then show "validateOne rec V (arg a) (getParam ps (arg a)) ps s
                 ((\<lambda>(validatorName, sp). (validatorName, quietSpec sp)) x) = Inr s'"
      using validateOne_quiet [of rec V "arg a" "getParam ps (arg a)" ps s "fst x" "snd x" s']
      by (cases x) simp
  qed
  with False show ?thesis
    by (simp add: validateAccept_def quietAccept_def Let_def delete_quiet)
qed

lemma caught_throw_records_nothing:
  assumes "Validate isEmpty V params accepts = Inr e"
  shows "Validate isEmpty V params (map quietAccept accepts) = Inr e"
  using assms unfolding Validate_def validateWith_def
  by (rule each_quiet [rotated]) (rule validateAccept_quiet)

lemma callValidator_caught:
  "\<not> nullish thrown \<Longrightarrow> callValidator rec (Throws thrown) n v s = Inr s"
  by (simp add: callValidator_def)

section \<open>Claims about validation\<close>






text \<open>
  C8. A function validator that throws \<^verbatim>\<open>null\<close> is caught, but the handler reads
  \<^verbatim>\<open>e.message\<close> for its log line, which raises a TypeError that leaves
  \<^verbatim>\<open>Validate\<close>: nothing is returned, and the validator after it is not evaluated.
  With an error object thrown instead, the same call returns and holds the failure of the
  validator that follows.
\<close>

theorem validator_throwing_null_escapes:
  "Validate helper_isEmpty exampleLibrary nameParams [nameRule JNull] = Inl TypeError \<and>
   Validate helper_isEmpty exampleLibrary nameParams [nameRule (JObj ''Error: boom'')] =
     Inr [(''name'', [(''isLength'', JStr ''too short'')])]"
  by code_simp

end
